theory Spec2Isabelle
  imports Main "HOL-Library.Finite_Map"
begin

section \<open>JavaScript numbers as far as the sliding window uses them\<close>

text \<open>
  Counters and displacements are integers. The bounds handed to \<open>move\<close> may also be
  non-finite (\<open>Infinity\<close>, \<open>-Infinity\<close>, \<open>NaN\<close>), and so may the value reported by
  \<open>api.getMaxCounter()\<close>: the source tests both with \<open>Number.isFinite\<close>.
  \<open>Math.max\<close> and \<open>Math.min\<close> return \<open>NaN\<close> as soon as one argument is \<open>NaN\<close>,
  and every comparison with \<open>NaN\<close> is false.
\<close>

datatype jsnum = Fin int | PosInf | NegInf | NaN

fun Number_isFinite :: "jsnum \<Rightarrow> bool" where
  "Number_isFinite (Fin _) = True"
| "Number_isFinite _ = False"

fun Math_max :: "jsnum \<Rightarrow> jsnum \<Rightarrow> jsnum" where
  "Math_max NaN _ = NaN"
| "Math_max _ NaN = NaN"
| "Math_max PosInf _ = PosInf"
| "Math_max _ PosInf = PosInf"
| "Math_max NegInf y = y"
| "Math_max x NegInf = x"
| "Math_max (Fin a) (Fin b) = Fin (max a b)"

fun Math_min :: "jsnum \<Rightarrow> jsnum \<Rightarrow> jsnum" where
  "Math_min NaN _ = NaN"
| "Math_min _ NaN = NaN"
| "Math_min NegInf _ = NegInf"
| "Math_min _ NegInf = NegInf"
| "Math_min PosInf y = y"
| "Math_min x PosInf = x"
| "Math_min (Fin a) (Fin b) = Fin (min a b)"

text \<open>\<open>js_gt a b\<close> is the JavaScript comparison \<open>a > b\<close>.\<close>

fun js_gt :: "jsnum \<Rightarrow> jsnum \<Rightarrow> bool" where
  "js_gt NaN _ = False"
| "js_gt _ NaN = False"
| "js_gt (Fin a) (Fin b) = (a > b)"
| "js_gt PosInf PosInf = False"
| "js_gt PosInf _ = True"
| "js_gt _ PosInf = False"
| "js_gt NegInf _ = False"
| "js_gt (Fin _) NegInf = True"


section \<open>Range arithmetic\<close>

text \<open>
  \<open>checkRangeOverlap\<close> and \<open>getOverlapArray\<close> are only reached in \<open>move\<close> after both
  bounds passed \<open>Number.isFinite\<close>, so they are modelled on integer ranges.
  \<open>getOverlapArray\<close> returns \<open>false\<close> for ranges that do not overlap: \<open>None\<close>.
\<close>

definition checkRangeOverlap :: "int \<times> int \<Rightarrow> int \<times> int \<Rightarrow> bool" where
  "checkRangeOverlap rng other =
     (let span = max (snd rng) (snd other) - min (fst rng) (fst other)
      in (snd rng - fst rng) + (snd other - fst other) \<ge> span)"

definition getOverlapArray :: "int \<times> int \<Rightarrow> int \<times> int \<Rightarrow> (int \<times> int) option" where
  "getOverlapArray rng other =
     (if \<not> checkRangeOverlap rng other then None
      else Some (fst rng - fst other, snd other - snd rng))"

definition getBoundedRange :: "jsnum \<times> jsnum \<Rightarrow> jsnum \<times> jsnum \<Rightarrow> jsnum \<times> jsnum" where
  "getBoundedRange rng other =
     (Math_max (fst rng) (fst other), Math_min (snd rng) (snd other))"


section \<open>Events, collaborators and the window state\<close>

record event =
  counter :: int
  start_line :: int
  end_line :: int
  uuid :: string

text \<open>
  Every call to the storage (sink) and to the api (source) is appended to a log kept in
  the state, so that "no call was made" is a statement about the state.
\<close>

datatype call =
    Storage_append "event list"
  | Storage_prepend "event list"
  | Storage_pop int
  | Storage_shift int
  | Storage_deleteRecord "string option"
  | Api_getRange "int \<times> int"
  | Api_getFirst
  | Api_getLast

text \<open>
  \<open>this.records\<close> maps a counter to its \<open>{ start_line, end_line }\<close>, \<open>this.uuids\<close> maps a
  counter to its uuid. Both are JavaScript objects, hence finite maps.
\<close>

record slider =
  records :: "(int, int \<times> int) fmap"
  uuids :: "(int, string) fmap"
  calls :: "call list"

text \<open>
  The collaborators and constants that \<open>init\<close> and the import from \<open>./constants\<close> supply.
  The constants file is not part of the sources, so both constants are parameters.
  \<open>getScrollHeight\<close> reads the rendered output, which the storage calls made so far
  determine.
\<close>

record env =
  OUTPUT_EVENT_LIMIT :: int
  OUTPUT_PAGE_SIZE :: int
  api_getMaxCounter :: jsnum
  api_getRange :: "int \<times> int \<Rightarrow> event list"
  api_getFirst :: "event list"
  api_getLast :: "event list"
  getScrollHeight :: "call list \<Rightarrow> int"

definition init :: slider where
  "init = \<lparr> records = fmempty, uuids = fmempty, calls = [] \<rparr>"

definition log_call :: "call \<Rightarrow> slider \<Rightarrow> slider" where
  "log_call c s = s\<lparr> calls := calls s @ [c] \<rparr>"

subsection \<open>Queries\<close>

text \<open>
  \<open>Math.max(...Object.keys(this.records))\<close> is \<open>-Infinity\<close> for an object without keys,
  which \<open>Number.isFinite\<close> turns into 0; likewise \<open>Math.min\<close>.
\<close>

definition getTailCounter :: "slider \<Rightarrow> int" where
  "getTailCounter s =
     (if fmdom' (records s) = {} then 0 else Max (fmdom' (records s)))"

definition getHeadCounter :: "slider \<Rightarrow> int" where
  "getHeadCounter s =
     (if fmdom' (records s) = {} then 0 else Min (fmdom' (records s)))"

definition getMaxCounter :: "env \<Rightarrow> slider \<Rightarrow> int" where
  "getMaxCounter e s =
     (let counter = api_getMaxCounter e; tail = getTailCounter s
      in case counter of Fin c \<Rightarrow> max tail c | _ \<Rightarrow> tail)"

definition getRange :: "slider \<Rightarrow> int \<times> int" where
  "getRange s = (getHeadCounter s, getTailCounter s)"

definition getRecordCount :: "slider \<Rightarrow> int" where
  "getRecordCount s = int (card (fmdom' (records s)))"

definition getCapacity :: "env \<Rightarrow> slider \<Rightarrow> int" where
  "getCapacity e s = OUTPUT_EVENT_LIMIT e - getRecordCount s"


section \<open>Edge operations\<close>

text \<open>The \<open>forEach\<close> that \<open>pushFront\<close> and \<open>pushBack\<close> run over the events they keep.\<close>

definition store_event :: "event \<Rightarrow> slider \<Rightarrow> slider" where
  "store_event ev s =
     s\<lparr> records := fmupd (counter ev) (start_line ev, end_line ev) (records s),
        uuids := fmupd (counter ev) (uuid ev) (uuids s) \<rparr>"

definition store_events :: "event list \<Rightarrow> slider \<Rightarrow> slider" where
  "store_events evs s = fold store_event evs s"

definition pushFront :: "slider \<Rightarrow> event list \<Rightarrow> slider" where
  "pushFront s events =
     (let tail = getTailCounter s;
          newEvents = filter (\<lambda>ev. counter ev > tail) events
      in store_events newEvents (log_call (Storage_append newEvents) s))"

definition pushBack :: "slider \<Rightarrow> event list \<Rightarrow> slider" where
  "pushBack s events =
     (let (head, tail) = getRange s;
          newEvents = filter (\<lambda>ev. counter ev < head \<or> counter ev > tail) events
      in store_events newEvents (log_call (Storage_prepend newEvents) s))"

text \<open>
  Each \<open>for\<close> of \<open>popFront\<close> runs \<open>i\<close> from \<open>max\<close> down to \<open>min\<close>, both included; each
  \<open>for\<close> of \<open>popBack\<close> runs \<open>i\<close> from \<open>min\<close> up to \<open>max\<close>, both included. The first loop
  adds up the line spans of the records that exist, the second deletes the entries and
  tells the storage to drop the record of \<open>this.uuids[i]\<close> (\<open>undefined\<close> when there is no
  entry: \<open>None\<close>).
\<close>

definition span_of :: "slider \<Rightarrow> int \<Rightarrow> int" where
  "span_of s i = (case fmlookup (records s) i of
                    Some (sl, el) \<Rightarrow> el - sl
                  | None \<Rightarrow> 0)"

definition delete_entry :: "int \<Rightarrow> slider \<Rightarrow> slider" where
  "delete_entry i s =
     s\<lparr> records := fmdrop i (records s),
        calls := calls s @ [Storage_deleteRecord (fmlookup (uuids s) i)],
        uuids := fmdrop i (uuids s) \<rparr>"

function lines_down :: "slider \<Rightarrow> int \<Rightarrow> int \<Rightarrow> int \<Rightarrow> int" where
  "lines_down s i mn lines =
     (if i \<ge> mn then lines_down s (i - 1) mn (lines + span_of s i) else lines)"
  by pat_completeness auto
termination
  by (relation "measure (\<lambda>(s, i, mn, lines). nat (i + 1 - mn))") auto

function delete_down :: "int \<Rightarrow> int \<Rightarrow> slider \<Rightarrow> slider" where
  "delete_down i mn s =
     (if i \<ge> mn then delete_down (i - 1) mn (delete_entry i s) else s)"
  by pat_completeness auto
termination
  by (relation "measure (\<lambda>(i, mn, s). nat (i + 1 - mn))") auto

function lines_up :: "slider \<Rightarrow> int \<Rightarrow> int \<Rightarrow> int \<Rightarrow> int" where
  "lines_up s i mx lines =
     (if i \<le> mx then lines_up s (i + 1) mx (lines + span_of s i) else lines)"
  by pat_completeness auto
termination
  by (relation "measure (\<lambda>(s, i, mx, lines). nat (mx + 1 - i))") auto

function delete_up :: "int \<Rightarrow> int \<Rightarrow> slider \<Rightarrow> slider" where
  "delete_up i mx s =
     (if i \<le> mx then delete_up (i + 1) mx (delete_entry i s) else s)"
  by pat_completeness auto
termination
  by (relation "measure (\<lambda>(i, mx, s). nat (mx + 1 - i))") auto

text \<open>
  \<open>!count || count <= 0\<close>: for an integer \<open>count\<close> the first disjunct is \<open>count = 0\<close>.
\<close>

definition popFront :: "slider \<Rightarrow> int \<Rightarrow> slider" where
  "popFront s count =
     (if count = 0 \<or> count \<le> 0 then s
      else let mx = getTailCounter s;
               mn = mx - count;
               lines = lines_down s mx mn 0
           in delete_down mx mn (log_call (Storage_pop lines) s))"

definition popBack :: "slider \<Rightarrow> int \<Rightarrow> slider" where
  "popBack s count =
     (if count = 0 \<or> count \<le> 0 then s
      else let mn = getHeadCounter s;
               mx = mn + count;
               lines = lines_up s mn mx 0
           in delete_up mn mx (log_call (Storage_shift lines) s))"


section \<open>The window reconciler and the paging operations\<close>

text \<open>
  Every operation below is modelled as called while the promise chain is idle, that is
  after the operation before it has settled: what \<open>move\<close> reads when it is called
  (\<open>getMaxCounter\<close>, \<open>getRange\<close>, the first \<open>getScrollHeight\<close>) is then read in the state
  in which its chained steps start to run, and the steps run in the order in which they
  were chained. The result is \<open>Some (s', h)\<close> when the returned promise resolves with
  \<open>h\<close> in state \<open>s'\<close>, and \<open>None\<close> when it never settles.

  The latter happens in the branch of \<open>move\<close> for a target that does not overlap the
  current range. Its first step is \<open>() => this.clear()\<close>, and \<open>clear\<close> returns
  \<open>this.chain\<close>. When that step runs, \<open>move\<close> has long returned and \<open>this.chain\<close> is the
  last promise that \<open>move\<close> chained (or, for a window with records, a promise chained to
  it by \<open>clear\<close> itself). The step's promise therefore waits for a promise that waits
  for this very step: neither settles, no storage or api call is made, and nothing
  chained later runs.

  \<open>move_steps\<close> are the steps that \<open>move\<close> chains for ranges that overlap: the two
  pops, the second reading of the scroll height, and the two pushes, whose ranges are
  computed from the head and tail read when \<open>move\<close> was called.
\<close>

definition move_steps :: "env \<Rightarrow> slider \<Rightarrow> int \<times> int \<Rightarrow> int \<times> int \<Rightarrow> slider \<times> int" where
  "move_steps e s current overlap =
     (let (head, tail) = current;
          (o0, o1) = overlap;
          s1 = (if o0 < 0 then popBack s (abs o0) else s);
          s2 = (if o1 < 0 then popFront s1 (abs o1) else s1);
          popHeight = getScrollHeight e (calls s2);
          s3 = (if o0 > 0
                then let pushBackRange = (head - o0, head)
                     in pushBack (log_call (Api_getRange pushBackRange) s2)
                          (api_getRange e pushBackRange)
                else s2);
          s4 = (if o1 > 0
                then let pushFrontRange = (tail, tail + o1)
                     in pushFront (log_call (Api_getRange pushFrontRange) s3)
                          (api_getRange e pushFrontRange)
                else s3)
      in (s4, popHeight))"

definition move :: "env \<Rightarrow> slider \<Rightarrow> jsnum \<times> jsnum \<Rightarrow> (slider \<times> int) option" where
  "move e s target =
     (let bounds = (Fin 1, Fin (getMaxCounter e s));
          (newHead, newTail) = getBoundedRange target bounds;
          popHeight = getScrollHeight e (calls s)
      in if js_gt newHead newTail then Some (s, popHeight)
         else if \<not> Number_isFinite newHead \<or> \<not> Number_isFinite newTail
              then Some (s, popHeight)
         else case (newHead, newTail) of
                (Fin nh, Fin nt) \<Rightarrow>
                  (let (head, tail) = getRange s
                   in case getOverlapArray (head, tail) (nh, nt) of
                        None \<Rightarrow> None
                      | Some overlap \<Rightarrow> Some (move_steps e s (head, tail) overlap))
              | _ \<Rightarrow> Some (s, popHeight))"

text \<open>
  \<open>move\<close> called while steps chained earlier are still pending: it reads
  \<open>getMaxCounter\<close>, the scroll height and \<open>getRange\<close> at once, in the state \<open>s0\<close> of
  the call, and only chains its steps, which run later in the state \<open>s\<close> that the steps
  before them leave. \<open>move_queued e s0 target s\<close> is what these steps make of \<open>s\<close>.
  \<open>chain_moves e s0 targets s\<close> runs the steps of several calls of \<open>move\<close> that were
  all made in state \<open>s0\<close>, in the order of the calls.
\<close>

definition move_queued ::
  "env \<Rightarrow> slider \<Rightarrow> jsnum \<times> jsnum \<Rightarrow> slider \<Rightarrow> (slider \<times> int) option" where
  "move_queued e s0 target s =
     (let bounds = (Fin 1, Fin (getMaxCounter e s0));
          (newHead, newTail) = getBoundedRange target bounds;
          popHeight = getScrollHeight e (calls s0)
      in if js_gt newHead newTail then Some (s, popHeight)
         else if \<not> Number_isFinite newHead \<or> \<not> Number_isFinite newTail
              then Some (s, popHeight)
         else case (newHead, newTail) of
                (Fin nh, Fin nt) \<Rightarrow>
                  (let (head, tail) = getRange s0
                   in case getOverlapArray (head, tail) (nh, nt) of
                        None \<Rightarrow> None
                      | Some overlap \<Rightarrow> Some (move_steps e s (head, tail) overlap))
              | _ \<Rightarrow> Some (s, popHeight))"

fun chain_moves :: "env \<Rightarrow> slider \<Rightarrow> (jsnum \<times> jsnum) list \<Rightarrow> slider \<Rightarrow> slider option" where
  "chain_moves e s0 [] s = Some s"
| "chain_moves e s0 (target # targets) s =
     (case move_queued e s0 target s of
        None \<Rightarrow> None
      | Some (s', h) \<Rightarrow> chain_moves e s0 targets s')"

definition range_target :: "int \<times> int \<Rightarrow> jsnum \<times> jsnum" where
  "range_target r = (Fin (fst r), Fin (snd r))"

text \<open>
  The range that each paging operation hands to \<open>move\<close>. A displacement that is left
  out (\<open>None\<close>) defaults to \<open>OUTPUT_PAGE_SIZE\<close>.
\<close>

definition getNext_range :: "env \<Rightarrow> slider \<Rightarrow> int option \<Rightarrow> int \<times> int" where
  "getNext_range e s d =
     (let displacement = (case d of Some x \<Rightarrow> x | None \<Rightarrow> OUTPUT_PAGE_SIZE e);
          (head, tail) = getRange s;
          tailRoom = getMaxCounter e s - tail;
          tailDisplacement = min tailRoom displacement;
          newTail = tail + tailDisplacement;
          headDisplacement =
            (if newTail - head > OUTPUT_EVENT_LIMIT e
             then (newTail - OUTPUT_EVENT_LIMIT e) - head else 0)
      in (head + headDisplacement, tail + tailDisplacement))"

definition getPrevious_range :: "env \<Rightarrow> slider \<Rightarrow> int option \<Rightarrow> int \<times> int" where
  "getPrevious_range e s d =
     (let displacement = (case d of Some x \<Rightarrow> x | None \<Rightarrow> OUTPUT_PAGE_SIZE e);
          (head, tail) = getRange s;
          headRoom = head - 1;
          headDisplacement = min headRoom displacement;
          newHead = head - headDisplacement;
          tailDisplacement =
            (if tail - newHead > OUTPUT_EVENT_LIMIT e
             then tail - (newHead + OUTPUT_EVENT_LIMIT e) else 0)
      in (newHead, tail - tailDisplacement))"

definition moveHead_range :: "slider \<Rightarrow> int \<Rightarrow> int \<times> int" where
  "moveHead_range s displacement =
     (let (head, tail) = getRange s;
          headRoom = head - 1;
          headDisplacement = min headRoom displacement
      in (head + headDisplacement, tail))"

definition moveTail_range :: "env \<Rightarrow> slider \<Rightarrow> int \<Rightarrow> int \<times> int" where
  "moveTail_range e s displacement =
     (let (head, tail) = getRange s;
          tailRoom = getMaxCounter e s - tail;
          tailDisplacement = max tailRoom displacement
      in (head, tail + tailDisplacement))"

definition move_to :: "env \<Rightarrow> slider \<Rightarrow> int \<times> int \<Rightarrow> (slider \<times> int) option" where
  "move_to e s r = move e s (Fin (fst r), Fin (snd r))"

definition getNext :: "env \<Rightarrow> slider \<Rightarrow> int option \<Rightarrow> (slider \<times> int) option" where
  "getNext e s d = move_to e s (getNext_range e s d)"

definition getPrevious :: "env \<Rightarrow> slider \<Rightarrow> int option \<Rightarrow> (slider \<times> int) option" where
  "getPrevious e s d = move_to e s (getPrevious_range e s d)"

definition moveHead :: "env \<Rightarrow> slider \<Rightarrow> int \<Rightarrow> (slider \<times> int) option" where
  "moveHead e s displacement = move_to e s (moveHead_range s displacement)"

definition moveTail :: "env \<Rightarrow> slider \<Rightarrow> int \<Rightarrow> (slider \<times> int) option" where
  "moveTail e s displacement = move_to e s (moveTail_range e s displacement)"

text \<open>
  \<open>clear\<close> called on an idle chain: the \<open>popBack\<close> it chains runs next. (Called from a
  step of the chain, as \<open>move\<close> does, it blocks the chain instead; see above.)
\<close>

definition clear :: "slider \<Rightarrow> slider" where
  "clear s = (let count = getRecordCount s
              in if count > 0 then popBack s count else s)"

definition getFirst :: "env \<Rightarrow> slider \<Rightarrow> (slider \<times> int) option" where
  "getFirst e s =
     (let s1 = clear s;
          s2 = pushFront (log_call Api_getFirst s1) (api_getFirst e)
      in moveTail e s2 (OUTPUT_PAGE_SIZE e))"

definition getLast :: "env \<Rightarrow> slider \<Rightarrow> (slider \<times> int) option" where
  "getLast e s =
     (let s1 = clear s;
          s2 = pushBack (log_call Api_getLast s1) (api_getLast e)
      in moveHead e s2 (- OUTPUT_PAGE_SIZE e))"


section \<open>Sequences of operations\<close>

text \<open>
  The four edge operations as commands, to speak about every state that sequences of
  them reach.
\<close>

datatype edge_op =
    PushFront "event list"
  | PushBack "event list"
  | PopFront int
  | PopBack int

fun edge :: "edge_op \<Rightarrow> slider \<Rightarrow> slider" where
  "edge (PushFront evs) s = pushFront s evs"
| "edge (PushBack evs) s = pushBack s evs"
| "edge (PopFront n) s = popFront s n"
| "edge (PopBack n) s = popBack s n"

text \<open>
  The public mutating operations as commands. Each one is run by a source and hooks of
  its own, since the log may have grown between two calls. \<open>run\<close> calls the next
  operation when the one before has settled, and is \<open>None\<close> when one never does; for
  calls of \<open>move\<close> made while earlier steps are pending see \<open>chain_moves\<close>.
\<close>

datatype op =
    Move "jsnum \<times> jsnum"
  | GetNext "int option"
  | GetPrevious "int option"
  | MoveHead int
  | MoveTail int
  | GetFirst
  | GetLast

fun exec :: "env \<Rightarrow> op \<Rightarrow> slider \<Rightarrow> (slider \<times> int) option" where
  "exec e (Move target) s = move e s target"
| "exec e (GetNext d) s = getNext e s d"
| "exec e (GetPrevious d) s = getPrevious e s d"
| "exec e (MoveHead d) s = moveHead e s d"
| "exec e (MoveTail d) s = moveTail e s d"
| "exec e GetFirst s = getFirst e s"
| "exec e GetLast s = getLast e s"

fun run :: "(env \<times> op) list \<Rightarrow> slider \<Rightarrow> slider option" where
  "run [] s = Some s"
| "run ((e, c) # rest) s =
     (case exec e c s of None \<Rightarrow> None | Some (s', h) \<Rightarrow> run rest s')"

text \<open>
  \<open>getNext\<close> and \<open>getPrevious\<close> are the operations that compare the width of their
  target with \<open>OUTPUT_EVENT_LIMIT\<close>; \<open>getFirst\<close> and \<open>getLast\<close> are the ones that ask
  the source for a page.
\<close>

fun capped :: "op \<Rightarrow> bool" where
  "capped (GetNext d) = True"
| "capped (GetPrevious d) = True"
| "capped _ = False"

fun fetches_page :: "op \<Rightarrow> bool" where
  "fetches_page GetFirst = True"
| "fetches_page GetLast = True"
| "fetches_page _ = False"

subsection \<open>Properties of states and sources\<close>

text \<open>
  The window is contiguous when it is empty or holds exactly the counters from its head
  to its tail.
\<close>

definition contiguous :: "slider \<Rightarrow> bool" where
  "contiguous s \<longleftrightarrow>
     fmdom' (records s) = {} \<or>
     fmdom' (records s) = {getHeadCounter s .. getTailCounter s}"

text \<open>
  A source answers \<open>getRange\<close> with one record for each counter of the range asked for,
  no more and no less; its first and last pages are runs of positive counters.
\<close>

definition one_per_counter :: "event list \<Rightarrow> int \<Rightarrow> int \<Rightarrow> bool" where
  "one_per_counter evs lo hi \<longleftrightarrow>
     distinct (map counter evs) \<and> counter ` set evs = {lo..hi}"

definition range_source :: "env \<Rightarrow> bool" where
  "range_source e \<longleftrightarrow> (\<forall>lo hi. one_per_counter (api_getRange e (lo, hi)) lo hi)"

definition page_source :: "env \<Rightarrow> bool" where
  "page_source e \<longleftrightarrow>
     (\<exists>lo hi. 1 \<le> lo \<and> one_per_counter (api_getFirst e) lo hi) \<and>
     (\<exists>lo hi. 1 \<le> lo \<and> one_per_counter (api_getLast e) lo hi)"

subsection \<open>A concrete log\<close>

text \<open>
  A log in which the record with counter \<open>i\<close> takes the two lines from \<open>2 * i\<close>, a
  source that serves it up to a given counter with pages of a given size, and the
  window that holds its records from \<open>lo\<close> to \<open>hi\<close>.
\<close>

definition log_event :: "int \<Rightarrow> event" where
  "log_event i = \<lparr> counter = i, start_line = 2 * i, end_line = 2 * i + 2, uuid = ''id'' \<rparr>"

definition log_range :: "int \<times> int \<Rightarrow> event list" where
  "log_range r = map log_event [fst r .. snd r]"

definition log_env :: "int \<Rightarrow> int \<Rightarrow> int \<Rightarrow> env" where
  "log_env limit page mx =
     \<lparr> OUTPUT_EVENT_LIMIT = limit, OUTPUT_PAGE_SIZE = page,
       api_getMaxCounter = Fin mx,
       api_getRange = log_range,
       api_getFirst = log_range (1, min page mx),
       api_getLast = log_range (max 1 (mx - page + 1), mx),
       getScrollHeight = (\<lambda>cs. int (length cs)) \<rparr>"

definition window :: "int \<Rightarrow> int \<Rightarrow> slider" where
  "window lo hi = store_events (log_range (lo, hi)) init"


section \<open>Facts about the edge operations\<close>

declare delete_down.simps [simp del] delete_up.simps [simp del]
  lines_down.simps [simp del] lines_up.simps [simp del]

lemma records_log_call [simp]: "records (log_call c s) = records s"
  and uuids_log_call [simp]: "uuids (log_call c s) = uuids s"
  by (simp_all add: log_call_def)

lemma head_log_call [simp]: "getHeadCounter (log_call c s) = getHeadCounter s"
  and tail_log_call [simp]: "getTailCounter (log_call c s) = getTailCounter s"
  by (simp_all add: getHeadCounter_def getTailCounter_def)

lemma delete_down_maps:
  "records (delete_down i mn s) = fmdrop_set {mn..i} (records s) \<and>
   uuids (delete_down i mn s) = fmdrop_set {mn..i} (uuids s)"
proof (induction i mn s rule: delete_down.induct)
  case (1 i mn s)
  show ?case
  proof (cases "mn \<le> i")
    case True
    have "{mn..i} = insert i {mn..i - 1}" using True by auto
    with 1 True show ?thesis
      by (subst (1 2) delete_down.simps) (simp add: delete_entry_def)
  next
    case False
    then show ?thesis by (subst (1 2) delete_down.simps) simp
  qed
qed

lemma delete_up_maps:
  "records (delete_up i mx s) = fmdrop_set {i..mx} (records s) \<and>
   uuids (delete_up i mx s) = fmdrop_set {i..mx} (uuids s)"
proof (induction i mx s rule: delete_up.induct)
  case (1 i mx s)
  show ?case
  proof (cases "i \<le> mx")
    case True
    have "{i..mx} = insert i {i + 1..mx}" using True by auto
    with 1 True show ?thesis
      by (subst (1 2) delete_up.simps) (simp add: delete_entry_def)
  next
    case False
    then show ?thesis by (subst (1 2) delete_up.simps) simp
  qed
qed

lemma store_events_maps:
  "fmdom' (records (store_events evs s)) = fmdom' (records s) \<union> counter ` set evs \<and>
   fmdom' (uuids (store_events evs s)) = fmdom' (uuids s) \<union> counter ` set evs"
  unfolding store_events_def
  by (induction evs arbitrary: s) (auto simp: store_event_def)

lemma popFront_keys:
  "0 < n \<Longrightarrow> fmdom' (records (popFront s n)) =
     fmdom' (records s) - {getTailCounter s - n .. getTailCounter s}"
  by (simp add: popFront_def Let_def delete_down_maps)

lemma popBack_keys:
  "0 < n \<Longrightarrow> fmdom' (records (popBack s n)) =
     fmdom' (records s) - {getHeadCounter s .. getHeadCounter s + n}"
  by (simp add: popBack_def Let_def delete_up_maps)

lemma pushFront_keys:
  "fmdom' (records (pushFront s evs)) =
     fmdom' (records s) \<union> {c \<in> counter ` set evs. getTailCounter s < c}"
  by (auto simp: pushFront_def Let_def store_events_maps)

lemma pushBack_keys:
  "fmdom' (records (pushBack s evs)) =
     fmdom' (records s) \<union>
       {c \<in> counter ` set evs. c < getHeadCounter s \<or> getTailCounter s < c}"
  by (auto simp: pushBack_def getRange_def Let_def store_events_maps)

subsection \<open>Windows that are intervals\<close>

lemma head_tail_empty:
  "fmdom' (records s) = {} \<Longrightarrow> getHeadCounter s = 0 \<and> getTailCounter s = 0"
  by (simp add: getHeadCounter_def getTailCounter_def)

lemma head_tail_interval:
  assumes "fmdom' (records s) = {a..b}" and "a \<le> b"
  shows "getHeadCounter s = a \<and> getTailCounter s = b"
proof -
  have ne: "{a..b} \<noteq> {}" using assms(2) by simp
  have "Min {a..b} = a" using assms(2) by (intro Min_eqI) auto
  moreover have "Max {a..b} = b" using assms(2) by (intro Max_eqI) auto
  ultimately show ?thesis
    using ne by (simp add: getHeadCounter_def getTailCounter_def assms(1))
qed

lemma contiguous_iff: "contiguous s \<longleftrightarrow> (\<exists>a b. fmdom' (records s) = {a..b})"
proof
  assume "contiguous s"
  then show "\<exists>a b. fmdom' (records s) = {a..b}"
    unfolding contiguous_def
  proof
    assume "fmdom' (records s) = {}"
    then have "fmdom' (records s) = {1..0::int}" by simp
    then show ?thesis by blast
  next
    assume "fmdom' (records s) = {getHeadCounter s..getTailCounter s}"
    then show ?thesis by blast
  qed
next
  assume "\<exists>a b. fmdom' (records s) = {a..b}"
  then obtain a b where ab: "fmdom' (records s) = {a..b}" by blast
  show "contiguous s"
  proof (cases "a \<le> b")
    case True
    with ab head_tail_interval [OF ab] show ?thesis by (simp add: contiguous_def)
  next
    case False
    with ab show ?thesis by (simp add: contiguous_def)
  qed
qed

lemma popBack_interval:
  assumes "fmdom' (records s) = {a..b}" and "0 < n"
  shows "fmdom' (records (popBack s n)) = {a + n + 1..b}"
proof (cases "a \<le> b")
  case True
  have "getHeadCounter s = a" using head_tail_interval [OF assms(1) True] by simp
  then have "fmdom' (records (popBack s n)) = {a..b} - {a..a + n}"
    using assms by (simp add: popBack_keys)
  also have "\<dots> = {a + n + 1..b}" using assms(2) by auto
  finally show ?thesis .
next
  case False
  then have "fmdom' (records (popBack s n)) = {}"
    using assms by (simp add: popBack_keys)
  then show ?thesis using False assms(2) by simp
qed

lemma popFront_interval:
  assumes "fmdom' (records s) = {a..b}" and "0 < n"
  shows "fmdom' (records (popFront s n)) = {a..b - n - 1}"
proof (cases "a \<le> b")
  case True
  have "getTailCounter s = b" using head_tail_interval [OF assms(1) True] by simp
  then have "fmdom' (records (popFront s n)) = {a..b} - {b - n..b}"
    using assms by (simp add: popFront_keys)
  also have "\<dots> = {a..b - n - 1}" using assms(2) by auto
  finally show ?thesis .
next
  case False
  then have "fmdom' (records (popFront s n)) = {}"
    using assms by (simp add: popFront_keys)
  then show ?thesis using False assms(2) by simp
qed

lemma pushFront_interval:
  assumes "fmdom' (records s) = {a..b}" and "a \<le> b"
    and "counter ` set evs = {lo..hi}" and "lo \<le> b + 1" and "b \<le> hi"
  shows "fmdom' (records (pushFront s evs)) = {a..hi}"
proof -
  have "getTailCounter s = b" using head_tail_interval [OF assms(1,2)] by simp
  then have "fmdom' (records (pushFront s evs)) = {a..b} \<union> {c \<in> {lo..hi}. b < c}"
    by (simp add: pushFront_keys assms(1,3))
  also have "\<dots> = {a..hi}" using assms(2,4,5) by auto
  finally show ?thesis .
qed

lemma pushFront_empty:
  assumes "fmdom' (records s) = {}" and "counter ` set evs = {lo..hi}" and "1 \<le> lo"
  shows "fmdom' (records (pushFront s evs)) = {lo..hi}"
proof -
  have "getTailCounter s = 0" using head_tail_empty [OF assms(1)] by simp
  then have "fmdom' (records (pushFront s evs)) = {c \<in> {lo..hi}. 0 < c}"
    by (simp add: pushFront_keys assms(1,2))
  also have "\<dots> = {lo..hi}" using assms(3) by auto
  finally show ?thesis .
qed

lemma pushBack_interval:
  assumes "fmdom' (records s) = {a..b}" and "a \<le> b"
    and "counter ` set evs = {lo..hi}" and "lo \<le> a" and "a - 1 \<le> hi" and "hi \<le> b"
  shows "fmdom' (records (pushBack s evs)) = {lo..b}"
proof -
  have "getHeadCounter s = a" "getTailCounter s = b"
    using head_tail_interval [OF assms(1,2)] by simp_all
  then have "fmdom' (records (pushBack s evs)) = {a..b} \<union> {c \<in> {lo..hi}. c < a \<or> b < c}"
    by (simp add: pushBack_keys assms(1,3))
  also have "\<dots> = {lo..b}" using assms(2,4,5,6) by auto
  finally show ?thesis .
qed

lemma pushBack_empty:
  assumes "fmdom' (records s) = {}" and "counter ` set evs = {lo..hi}" and "1 \<le> lo"
  shows "fmdom' (records (pushBack s evs)) = {lo..hi}"
proof -
  have "getHeadCounter s = 0" "getTailCounter s = 0"
    using head_tail_empty [OF assms(1)] by simp_all
  then have "fmdom' (records (pushBack s evs)) = {c \<in> {lo..hi}. c < 0 \<or> 0 < c}"
    by (simp add: pushBack_keys assms(1,2))
  also have "\<dots> = {lo..hi}" using assms(3) by auto
  finally show ?thesis .
qed

lemma Math_max_Fin: "Math_max x (Fin b) = Fin c \<Longrightarrow> b \<le> c"
  by (cases x) auto

lemma Math_min_Fin: "Math_min x (Fin b) = Fin c \<Longrightarrow> c \<le> b"
  by (cases x) auto

section \<open>Facts about the reconciler\<close>

lemma keys_log_call [simp]: "fmdom' (records (log_call c s)) = fmdom' (records s)"
  by simp

lemma range_source_counters:
  "range_source e \<Longrightarrow> counter ` set (api_getRange e (lo, hi)) = {lo..hi}"
  by (simp add: range_source_def one_per_counter_def)

lemma move_steps_unfold:
  "move_steps e s (h, t) (o0, o1) =
     (let s1 = (if o0 < 0 then popBack s (abs o0) else s);
          s2 = (if o1 < 0 then popFront s1 (abs o1) else s1);
          s3 = (if o0 > 0
                then pushBack (log_call (Api_getRange (h - o0, h)) s2)
                       (api_getRange e (h - o0, h))
                else s2);
          s4 = (if o1 > 0
                then pushFront (log_call (Api_getRange (t, t + o1)) s3)
                       (api_getRange e (t, t + o1))
                else s3)
      in (s4, getScrollHeight e (calls s2)))"
  by (simp add: move_steps_def Let_def)

lemma patch_keys:
  fixes h t nh nt :: int and s :: slider and e :: env
  assumes src: "range_source e"
    and K: "fmdom' (records s) = {h..t}" and ht: "h \<le> t"
    and tgt: "1 \<le> nh" "nh \<le> t" "h \<le> nt"
  shows "\<exists>a b. fmdom' (records (fst (move_steps e s (h, t) (h - nh, nt - t)))) = {a..b} \<and>
           nh \<le> a \<and> b \<le> nt"
proof -
  define o0 where "o0 = h - nh"
  define o1 where "o1 = nt - t"
  define s1 where "s1 = (if o0 < 0 then popBack s (abs o0) else s)"
  define s2 where "s2 = (if o1 < 0 then popFront s1 (abs o1) else s1)"
  define s3 where "s3 = (if o0 > 0
                  then pushBack (log_call (Api_getRange (h - o0, h)) s2)
                         (api_getRange e (h - o0, h))
                  else s2)"
  define s4 where "s4 = (if o1 > 0
                  then pushFront (log_call (Api_getRange (t, t + o1)) s3)
                         (api_getRange e (t, t + o1))
                  else s3)"
  have steps: "fst (move_steps e s (h, t) (h - nh, nt - t)) = s4"
    unfolding move_steps_unfold s4_def s3_def s2_def s1_def o0_def o1_def Let_def
    by (simp only: fst_conv)
  define a1 where "a1 = (if h < nh then nh + 1 else h)"
  define b2 where "b2 = (if nt < t then nt - 1 else t)"
  define a3 where "a3 = (if nh < h then nh else a1)"
  define b3 where "b3 = (if nh < h \<and> b2 < h then h else b2)"
  define a4 where "a4 = (if t < nt \<and> t < a3 then t else a3)"
  define b4 where "b4 = (if t < nt then nt else b3)"
  have k1: "fmdom' (records s1) = {a1..t}"
  proof (cases "h < nh")
    case True
    then have "fmdom' (records s1) = {h + (nh - h) + 1..t}"
      using popBack_interval [OF K, of "nh - h"] by (simp add: s1_def o0_def)
    then show ?thesis using True by (simp add: a1_def)
  next
    case False
    then show ?thesis using K by (simp add: s1_def o0_def a1_def)
  qed
  have k2: "fmdom' (records s2) = {a1..b2}"
  proof (cases "nt < t")
    case True
    then have "fmdom' (records s2) = {a1..t - (t - nt) - 1}"
      using popFront_interval [OF k1, of "t - nt"] by (simp add: s2_def o1_def)
    then show ?thesis using True by (simp add: b2_def)
  next
    case False
    then show ?thesis using k1 by (simp add: s2_def o1_def b2_def)
  qed
  have k3: "fmdom' (records s3) = {a3..b3}"
  proof (cases "nh < h")
    case True
    then have a1: "a1 = h" by (simp add: a1_def)
    have evs: "counter ` set (api_getRange e (nh, h)) = {nh..h}"
      using src by (rule range_source_counters)
    have s3: "s3 = pushBack (log_call (Api_getRange (nh, h)) s2) (api_getRange e (nh, h))"
      using True by (simp add: s3_def o0_def)
    show ?thesis
    proof (cases "h \<le> b2")
      case le: True
      have "fmdom' (records (log_call (Api_getRange (nh, h)) s2)) = {h..b2}"
        using k2 a1 by simp
      from pushBack_interval [OF this le evs] True le
      show ?thesis by (simp add: s3 a3_def b3_def)
    next
      case gt: False
      have "fmdom' (records (log_call (Api_getRange (nh, h)) s2)) = {}"
        using k2 a1 gt by simp
      from pushBack_empty [OF this evs tgt(1)] True gt
      show ?thesis by (simp add: s3 a3_def b3_def)
    qed
  next
    case False
    then show ?thesis using k2 by (simp add: s3_def o0_def a3_def b3_def)
  qed
  have k4: "fmdom' (records s4) = {a4..b4}"
  proof (cases "t < nt")
    case True
    then have b3: "b3 = t" using ht by (auto simp: b3_def b2_def)
    have evs: "counter ` set (api_getRange e (t, nt)) = {t..nt}"
      using src by (rule range_source_counters)
    have s4: "s4 = pushFront (log_call (Api_getRange (t, nt)) s3) (api_getRange e (t, nt))"
      using True by (simp add: s4_def o1_def)
    show ?thesis
    proof (cases "a3 \<le> t")
      case le: True
      have "fmdom' (records (log_call (Api_getRange (t, nt)) s3)) = {a3..t}"
        using k3 b3 by simp
      from pushFront_interval [OF this le evs] True le
      show ?thesis by (simp add: s4 a4_def b4_def)
    next
      case gt: False
      have "fmdom' (records (log_call (Api_getRange (t, nt)) s3)) = {}"
        using k3 b3 gt by simp
      moreover have "1 \<le> t" using gt tgt ht by (auto simp: a3_def a1_def split: if_splits)
      ultimately show ?thesis
        using pushFront_empty [OF _ evs] True gt by (simp add: s4 a4_def b4_def)
    qed
  next
    case False
    then show ?thesis using k3 by (simp add: s4_def o1_def a4_def b4_def)
  qed
  have "nh \<le> a4"
    using tgt ht by (auto simp: a4_def a3_def a1_def split: if_splits)
  moreover have "b4 \<le> nt"
    using tgt ht by (auto simp: b4_def b3_def b2_def split: if_splits)
  ultimately show ?thesis using k4 unfolding steps by blast
qed

lemma move_queued_idle: "move_queued e s target s = move e s target"
  by (simp add: move_queued_def move_def)

lemma chain_moves_single:
  "chain_moves e s [target] s = map_option fst (move e s target)"
  by (cases "move e s target") (auto simp: move_queued_idle)

lemma nonempty_head_le_tail:
  "fmdom' (records s) \<noteq> {} \<Longrightarrow> getHeadCounter s \<le> getTailCounter s"
  by (simp add: getHeadCounter_def getTailCounter_def)

lemma overlap_intersects:
  "h \<le> t \<Longrightarrow> nh \<le> nt \<Longrightarrow> checkRangeOverlap (h, t) (nh, nt) \<longleftrightarrow> nh \<le> t \<and> h \<le> nt"
  by (auto simp: checkRangeOverlap_def Let_def max_def min_def)

lemma move_result:
  assumes src: "range_source e" and con: "contiguous s"
    and mv: "move e s target = Some (s', ht)"
  shows "s' = s \<or>
         (\<exists>nh nt a b. getBoundedRange target (Fin 1, Fin (getMaxCounter e s)) = (Fin nh, Fin nt) \<and>
            fmdom' (records s') = {a..b} \<and> nh \<le> a \<and> b \<le> nt)"
proof -
  obtain x y where bnd: "getBoundedRange target (Fin 1, Fin (getMaxCounter e s)) = (x, y)"
    by (cases "getBoundedRange target (Fin 1, Fin (getMaxCounter e s))")
  show ?thesis
  proof (cases "js_gt x y \<or> \<not> Number_isFinite x \<or> \<not> Number_isFinite y")
    case True
    then have "s' = s"
      using mv bnd by (cases x; cases y) (auto simp: move_def Let_def)
    then show ?thesis ..
  next
    case False
    then obtain nh nt where xy: "x = Fin nh" "y = Fin nt" and le: "nh \<le> nt"
      by (cases x; cases y) auto
    have nh1: "1 \<le> nh"
      using bnd xy Math_max_Fin [of "fst target" 1 nh] by (simp add: getBoundedRange_def)
    define h t where "h = getHeadCounter s" and "t = getTailCounter s"
    obtain o0 o1 where ov: "getOverlapArray (h, t) (nh, nt) = Some (o0, o1)"
      using mv bnd xy le
      by (cases "getOverlapArray (h, t) (nh, nt)")
         (auto simp: move_def Let_def getRange_def h_def t_def)
    then have chk: "checkRangeOverlap (h, t) (nh, nt)" and o0: "o0 = h - nh" and o1: "o1 = nt - t"
      by (auto simp: getOverlapArray_def split: if_splits)
    have ne: "fmdom' (records s) \<noteq> {}"
    proof
      assume "fmdom' (records s) = {}"
      then have "h = 0" "t = 0" using head_tail_empty [of s] by (simp_all add: h_def t_def)
      with chk nh1 le show False
        by (auto simp: checkRangeOverlap_def Let_def max_def min_def split: if_splits)
    qed
    then have K: "fmdom' (records s) = {h..t}" and ht: "h \<le> t"
      using con nonempty_head_le_tail [of s] by (simp_all add: contiguous_def h_def t_def)
    have tgt: "nh \<le> t" "h \<le> nt"
      using chk overlap_intersects [OF ht le] by simp_all
    have s': "s' = fst (move_steps e s (h, t) (h - nh, nt - t))"
      using mv bnd xy le ov o0 o1
      by (simp add: move_def Let_def getRange_def h_def t_def)
    from patch_keys [OF src K ht nh1 tgt]
    obtain a b where "fmdom' (records s') = {a..b}" "nh \<le> a" "b \<le> nt"
      unfolding s' by blast
    then show ?thesis using bnd xy by blast
  qed
qed

lemma move_contiguous:
  assumes "range_source e" and "contiguous s" and "move e s target = Some (s', ht)"
  shows "contiguous s'"
  using move_result [OF assms] assms(2) contiguous_iff by blast

lemma clear_keys:
  assumes "contiguous s"
  shows "fmdom' (records (clear s)) = {}"
proof (cases "fmdom' (records s) = {}")
  case True
  then show ?thesis by (simp add: clear_def getRecordCount_def)
next
  case False
  define h t where "h = getHeadCounter s" and "t = getTailCounter s"
  have K: "fmdom' (records s) = {h..t}" and ht: "h \<le> t"
    using False assms nonempty_head_le_tail [of s] by (simp_all add: contiguous_def h_def t_def)
  have cnt: "getRecordCount s = t - h + 1"
    using ht by (simp add: getRecordCount_def K)
  then have "clear s = popBack s (t - h + 1)"
    using ht by (simp add: clear_def)
  moreover have "fmdom' (records (popBack s (t - h + 1))) = {h + (t - h + 1) + 1..t}"
    using ht by (intro popBack_interval [OF K]) simp
  ultimately show ?thesis by simp
qed

lemma getFirst_contiguous:
  assumes src: "range_source e" and pg: "page_source e" and con: "contiguous s"
    and res: "getFirst e s = Some (s', ht)"
  shows "contiguous s'"
proof -
  obtain lo hi where lo: "1 \<le> lo" and evs: "counter ` set (api_getFirst e) = {lo..hi}"
    using pg by (auto simp: page_source_def one_per_counter_def)
  define s2 where "s2 = pushFront (log_call Api_getFirst (clear s)) (api_getFirst e)"
  have "fmdom' (records (log_call Api_getFirst (clear s))) = {}"
    using clear_keys [OF con] by simp
  from pushFront_empty [OF this evs lo] have "contiguous s2"
    unfolding s2_def contiguous_iff by blast
  moreover have "move e s2 (Fin (fst (moveTail_range e s2 (OUTPUT_PAGE_SIZE e))),
                            Fin (snd (moveTail_range e s2 (OUTPUT_PAGE_SIZE e)))) = Some (s', ht)"
    using res by (simp add: getFirst_def Let_def s2_def moveTail_def move_to_def)
  ultimately show ?thesis using move_contiguous [OF src] by blast
qed

lemma getLast_contiguous:
  assumes src: "range_source e" and pg: "page_source e" and con: "contiguous s"
    and res: "getLast e s = Some (s', ht)"
  shows "contiguous s'"
proof -
  obtain lo hi where lo: "1 \<le> lo" and evs: "counter ` set (api_getLast e) = {lo..hi}"
    using pg by (auto simp: page_source_def one_per_counter_def)
  define s2 where "s2 = pushBack (log_call Api_getLast (clear s)) (api_getLast e)"
  have "fmdom' (records (log_call Api_getLast (clear s))) = {}"
    using clear_keys [OF con] by simp
  from pushBack_empty [OF this evs lo] have "contiguous s2"
    unfolding s2_def contiguous_iff by blast
  moreover have "move e s2 (Fin (fst (moveHead_range s2 (- OUTPUT_PAGE_SIZE e))),
                            Fin (snd (moveHead_range s2 (- OUTPUT_PAGE_SIZE e)))) = Some (s', ht)"
    using res by (simp add: getLast_def Let_def s2_def moveHead_def move_to_def)
  ultimately show ?thesis using move_contiguous [OF src] by blast
qed

lemma exec_contiguous:
  assumes "range_source e" and "fetches_page c \<longrightarrow> page_source e" and "contiguous s"
    and "exec e c s = Some (s', ht)"
  shows "contiguous s'"
proof (cases c)
  case (Move target)
  with assms show ?thesis using move_contiguous by simp
next
  case (GetNext d)
  with assms show ?thesis using move_contiguous by (simp add: getNext_def move_to_def)
next
  case (GetPrevious d)
  with assms show ?thesis using move_contiguous by (simp add: getPrevious_def move_to_def)
next
  case (MoveHead d)
  with assms show ?thesis using move_contiguous by (simp add: moveHead_def move_to_def)
next
  case (MoveTail d)
  with assms show ?thesis using move_contiguous by (simp add: moveTail_def move_to_def)
next
  case GetFirst
  with assms show ?thesis using getFirst_contiguous by simp
next
  case GetLast
  with assms show ?thesis using getLast_contiguous by simp
qed

lemma run_contiguous:
  assumes "\<forall>(e, c) \<in> set steps. range_source e \<and> (fetches_page c \<longrightarrow> page_source e)"
    and "contiguous s" and "run steps s = Some s'"
  shows "contiguous s'"
  using assms
proof (induction steps arbitrary: s)
  case Nil
  then show ?case by simp
next
  case (Cons step steps)
  obtain e c where step: "step = (e, c)" by (cases step)
  from Cons.prems(3) obtain s1 ht where ex: "exec e c s = Some (s1, ht)"
    and rest: "run steps s1 = Some s'"
    by (auto simp: step split: option.splits)
  have "contiguous s1"
    using exec_contiguous [OF _ _ Cons.prems(2) ex] Cons.prems(1) by (simp add: step)
  then show ?case using Cons.IH [OF _ _ rest] Cons.prems(1) by simp
qed

lemma contiguous_init: "contiguous init"
  by (simp add: contiguous_def init_def)

lemma one_per_counter_log_range: "one_per_counter (log_range (lo, hi)) lo hi"
  by (auto simp: one_per_counter_def log_range_def log_event_def distinct_map comp_def inj_on_def image_image)

lemma range_source_log_env: "range_source (log_env limit page mx)"
  by (simp add: range_source_def log_env_def one_per_counter_log_range)

lemma page_source_log_env: "page_source (log_env limit page mx)"
proof -
  have "1 \<le> (1::int) \<and> one_per_counter (log_range (1, min page mx)) 1 (min page mx)"
    by (simp add: one_per_counter_log_range)
  moreover have "1 \<le> max 1 (mx - page + 1) \<and>
      one_per_counter (log_range (max 1 (mx - page + 1), mx)) (max 1 (mx - page + 1)) mx"
    by (simp add: one_per_counter_log_range)
  ultimately show ?thesis
    unfolding page_source_def log_env_def by (simp only: env.simps) blast
qed

lemma count_le_width: "getRecordCount s \<le> getTailCounter s - getHeadCounter s + 1"
proof (cases "fmdom' (records s) = {}")
  case True
  then show ?thesis by (simp add: getRecordCount_def getHeadCounter_def getTailCounter_def)
next
  case False
  let ?K = "fmdom' (records s)"
  have "?K \<subseteq> {Min ?K..Max ?K}" by auto
  then have "card ?K \<le> card {Min ?K..Max ?K}" by (intro card_mono) auto
  moreover have "Min ?K \<le> Max ?K" using False by simp
  ultimately have "int (card ?K) \<le> Max ?K - Min ?K + 1" by simp
  then show ?thesis
    using False by (simp add: getRecordCount_def getHeadCounter_def getTailCounter_def)
qed

lemma move_to_width:
  assumes src: "range_source e" and con: "contiguous s"
    and mv: "move_to e s r = Some (s', ht)"
    and w: "snd r - fst r \<le> limit" and l0: "0 \<le> limit"
  shows "s' = s \<or> getTailCounter s' - getHeadCounter s' \<le> limit"
proof -
  have mv': "move e s (Fin (fst r), Fin (snd r)) = Some (s', ht)"
    using mv by (simp add: move_to_def)
  have bnd: "getBoundedRange (Fin (fst r), Fin (snd r)) (Fin 1, Fin (getMaxCounter e s)) =
      (Fin (max (fst r) 1), Fin (min (snd r) (getMaxCounter e s)))"
    by (simp add: getBoundedRange_def)
  from move_result [OF src con mv'] show ?thesis
  proof
    assume "s' = s" then show ?thesis ..
  next
    assume "\<exists>nh nt a b.
       getBoundedRange (Fin (fst r), Fin (snd r)) (Fin 1, Fin (getMaxCounter e s)) = (Fin nh, Fin nt) \<and>
       fmdom' (records s') = {a..b} \<and> nh \<le> a \<and> b \<le> nt"
    then obtain a b where K: "fmdom' (records s') = {a..b}"
      and a: "max (fst r) 1 \<le> a" and b: "b \<le> min (snd r) (getMaxCounter e s)"
      unfolding bnd by auto
    have "getTailCounter s' - getHeadCounter s' \<le> limit"
    proof (cases "a \<le> b")
      case True
      with head_tail_interval [OF K True] a b w show ?thesis by simp
    next
      case False
      then have "fmdom' (records s') = {}" using K by simp
      with head_tail_empty [of s'] l0 show ?thesis by simp
    qed
    then show ?thesis ..
  qed
qed

lemma getNext_range_width:
  "snd (getNext_range e s d) - fst (getNext_range e s d) \<le> OUTPUT_EVENT_LIMIT e"
  by (simp add: getNext_range_def Let_def getRange_def)

lemma getPrevious_range_width:
  "snd (getPrevious_range e s d) - fst (getPrevious_range e s d) \<le> OUTPUT_EVENT_LIMIT e"
  by (simp add: getPrevious_range_def Let_def getRange_def)

lemma capped_step:
  assumes src: "range_source e" and pg: "capped c" and l0: "0 \<le> OUTPUT_EVENT_LIMIT e"
    and con: "contiguous s"
    and w: "getTailCounter s - getHeadCounter s \<le> OUTPUT_EVENT_LIMIT e"
    and ex: "exec e c s = Some (s', ht)"
  shows "contiguous s' \<and> getTailCounter s' - getHeadCounter s' \<le> OUTPUT_EVENT_LIMIT e"
proof -
  obtain r where mv: "move_to e s r = Some (s', ht)" and r: "snd r - fst r \<le> OUTPUT_EVENT_LIMIT e"
    using pg ex getNext_range_width [of e s] getPrevious_range_width [of e s]
    by (cases c) (auto simp: getNext_def getPrevious_def)
  have "contiguous s'"
    using move_contiguous [OF src con] mv by (simp add: move_to_def)
  moreover have "getTailCounter s' - getHeadCounter s' \<le> OUTPUT_EVENT_LIMIT e"
    using move_to_width [OF src con mv r l0] w by auto
  ultimately show ?thesis ..
qed

lemma capped_run:
  assumes "\<forall>(e, c) \<in> set steps. range_source e \<and> OUTPUT_EVENT_LIMIT e = limit \<and> capped c"
    and "0 \<le> limit" and "contiguous s"
    and "getTailCounter s - getHeadCounter s \<le> limit"
    and "run steps s = Some s'"
  shows "contiguous s' \<and> getTailCounter s' - getHeadCounter s' \<le> limit"
  using assms
proof (induction steps arbitrary: s)
  case Nil
  then show ?case by simp
next
  case (Cons step steps)
  obtain e c where step: "step = (e, c)" by (cases step)
  from Cons.prems(5) obtain s1 ht where ex: "exec e c s = Some (s1, ht)"
    and rest: "run steps s1 = Some s'"
    by (auto simp: step split: option.splits)
  have e: "range_source e" "OUTPUT_EVENT_LIMIT e = limit" "capped c"
    using Cons.prems(1) by (simp_all add: step)
  have "contiguous s1 \<and> getTailCounter s1 - getHeadCounter s1 \<le> limit"
    using capped_step [OF e(1) e(3) _ Cons.prems(3) _ ex] Cons.prems(2,4) e(2) by simp
  then show ?case using Cons.IH [OF _ Cons.prems(2) _ _ rest] Cons.prems(1) by simp
qed

section \<open>The claims of the specification\<close>

subsection \<open>Shrinking the window\<close>

text \<open>
  C1. The specification says that \<open>popFront(n)\<close> removes exactly the \<open>n\<close> highest
  counters and \<open>popBack(n)\<close> exactly the \<open>n\<close> lowest ones, with their entries in both
  maps, for \<open>1 \<le> n\<close> below the number of counters held. Each loop includes both ends of
  \<open>max - count .. max\<close> and of \<open>min .. min + count\<close>, so it removes one counter more: on
  the window of the five counters 1 to 5, \<open>popFront(2)\<close> leaves 1 and 2 (not 1, 2, 3)
  and \<open>popBack(2)\<close> leaves 4 and 5 (not 3, 4, 5). Both maps lose the same entries.
\<close>

theorem pop_removes_one_more:
  "getRecordCount (window 1 5) = 5 \<and>
   fmdom' (records (popFront (window 1 5) 2)) = {1, 2} \<and>
   fmdom' (uuids (popFront (window 1 5) 2)) = {1, 2} \<and>
   fmdom' (records (popBack (window 1 5) 2)) = {4, 5} \<and>
   fmdom' (uuids (popBack (window 1 5) 2)) = {4, 5}"
  by code_simp


subsection \<open>Contiguity\<close>

text \<open>
  C2. The specification says that, with a source that answers \<open>getRange\<close> with one
  record for each counter of the range asked for, the window is contiguous after every
  sequence of \<open>move\<close> and paging calls from the empty window. The source grants this
  for calls that are each made when the call before has settled, and when the pages
  that \<open>getFirst\<close> and \<open>getLast\<close> fetch are runs of positive counters as well: then,
  after each call has settled, the window is empty or holds exactly the counters from
  its head to its tail, and an empty window has head and tail 0.
\<close>

theorem contiguity_invariant:
  assumes "\<forall>(e, c) \<in> set steps. range_source e \<and> (fetches_page c \<longrightarrow> page_source e)"
    and "run steps init = Some s'"
  shows "(fmdom' (records s') = {} \<and> getHeadCounter s' = 0 \<and> getTailCounter s' = 0) \<or>
         (fmdom' (records s') \<noteq> {} \<and>
          fmdom' (records s') = {getHeadCounter s' .. getTailCounter s'})"
proof -
  have "contiguous s'"
    using run_contiguous [OF assms(1) contiguous_init assms(2)] .
  then show ?thesis
    using head_tail_empty [of s'] by (auto simp: contiguous_def)
qed

text \<open>
  A run that settles five times: the first page, the last page, a page back after the
  log has grown to twelve records, a move and a page forward. It ends with the counters
  3 to 11.
\<close>

theorem contiguity_invariant_witness:
  "run [(log_env 50 2 9, GetFirst), (log_env 50 2 9, GetLast),
        (log_env 50 2 12, GetPrevious (Some 3)), (log_env 50 2 12, Move (Fin 3, Fin 9)),
        (log_env 50 2 12, GetNext None)] init \<noteq> None \<and>
   fmdom' (records (the (run [(log_env 50 2 9, GetFirst), (log_env 50 2 9, GetLast),
        (log_env 50 2 12, GetPrevious (Some 3)), (log_env 50 2 12, Move (Fin 3, Fin 9)),
        (log_env 50 2 12, GetNext None)] init))) = {3..11} \<and>
   getRange (the (run [(log_env 50 2 9, GetFirst), (log_env 50 2 9, GetLast),
        (log_env 50 2 12, GetPrevious (Some 3)), (log_env 50 2 12, Move (Fin 3, Fin 9)),
        (log_env 50 2 12, GetNext None)] init)) = (3, 11)"
proof -
  let ?steps = "[(log_env 50 2 9, GetFirst), (log_env 50 2 9, GetLast),
        (log_env 50 2 12, GetPrevious (Some 3)), (log_env 50 2 12, Move (Fin 3, Fin 9)),
        (log_env 50 2 12, GetNext None)]"
  have src: "\<forall>(e, c) \<in> set ?steps. range_source e \<and> (fetches_page c \<longrightarrow> page_source e)"
    by (simp add: range_source_log_env page_source_log_env)
  have "run ?steps init \<noteq> None" by code_simp
  then obtain s' where r: "run ?steps init = Some s'" by blast
  have rng: "getRange (the (run ?steps init)) = (3, 11)" by code_simp
  then have ne: "fmdom' (records s') \<noteq> {}"
    using r by (auto simp: getRange_def getHeadCounter_def getTailCounter_def)
  from contiguity_invariant [OF src r] ne rng r
  have "fmdom' (records s') = {3..11}" by (simp add: getRange_def)
  then show ?thesis using r rng by simp
qed


text \<open>
  Without these two conditions the claim fails. \<open>move\<close> reads \<open>getRange()\<close> when it is
  called and only chains its steps: on the window 6 to 9 that \<open>getLast\<close> leaves,
  \<open>move([8, 9])\<close> and \<open>move([4, 9])\<close> called one right after the other both read the
  range \<open>[6, 9]\<close>; the first pops 6, 7 and 8, the second then fetches \<open>[4, 6]\<close> and
  prepends 4, 5 and 6, and both have settled with the counters 4, 5, 6 and 9. And a
  source whose \<open>getRange\<close> is as assumed but whose first page holds the counters 1
  and 3 leaves exactly these two after \<open>getFirst\<close>.
\<close>

theorem contiguity_counterexample:
  "range_source (log_env 50 2 9) \<and>
   fmdom' (records (the (run [(log_env 50 2 9, GetLast)] init))) = {6, 7, 8, 9} \<and>
   map_option (fmdom' \<circ> records)
     (chain_moves (log_env 50 2 9) (the (run [(log_env 50 2 9, GetLast)] init))
        [(Fin 8, Fin 9), (Fin 4, Fin 9)] (the (run [(log_env 50 2 9, GetLast)] init)))
     = Some {4, 5, 6, 9} \<and>
   map_option contiguous
     (chain_moves (log_env 50 2 9) (the (run [(log_env 50 2 9, GetLast)] init))
        [(Fin 8, Fin 9), (Fin 4, Fin 9)] (the (run [(log_env 50 2 9, GetLast)] init)))
     = Some False \<and>
   range_source ((log_env 50 2 3)\<lparr> api_getFirst := [log_event 1, log_event 3] \<rparr>) \<and>
   map_option (fmdom' \<circ> records)
     (run [((log_env 50 2 3)\<lparr> api_getFirst := [log_event 1, log_event 3] \<rparr>, GetFirst)] init)
     = Some {1, 3} \<and>
   map_option contiguous
     (run [((log_env 50 2 3)\<lparr> api_getFirst := [log_event 1, log_event 3] \<rparr>, GetFirst)] init)
     = Some False"
proof -
  have "fmdom' (records (the (run [(log_env 50 2 9, GetLast)] init))) = {6, 7, 8, 9} \<and>
   map_option (fmdom' \<circ> records)
     (chain_moves (log_env 50 2 9) (the (run [(log_env 50 2 9, GetLast)] init))
        [(Fin 8, Fin 9), (Fin 4, Fin 9)] (the (run [(log_env 50 2 9, GetLast)] init)))
     = Some {4, 5, 6, 9} \<and>
   map_option contiguous
     (chain_moves (log_env 50 2 9) (the (run [(log_env 50 2 9, GetLast)] init))
        [(Fin 8, Fin 9), (Fin 4, Fin 9)] (the (run [(log_env 50 2 9, GetLast)] init)))
     = Some False"
    by code_simp
  moreover
  have "map_option (fmdom' \<circ> records)
     (run [((log_env 50 2 3)\<lparr> api_getFirst := [log_event 1, log_event 3] \<rparr>, GetFirst)] init)
     = Some {1, 3} \<and>
   map_option contiguous
     (run [((log_env 50 2 3)\<lparr> api_getFirst := [log_event 1, log_event 3] \<rparr>, GetFirst)] init)
     = Some False"
    by code_simp
  moreover
  have "range_source ((log_env 50 2 3)\<lparr> api_getFirst := [log_event 1, log_event 3] \<rparr>)"
    by (simp add: range_source_def log_env_def one_per_counter_log_range)
  ultimately show ?thesis by (simp add: range_source_log_env)
qed


subsection \<open>The size of the window\<close>

text \<open>
  C3. The specification says that after every settled public operation the window
  holds at most \<open>OUTPUT_EVENT_LIMIT\<close> records. Only \<open>getNext\<close> and \<open>getPrevious\<close> look
  at the limit, and what they bound is the width of the target they hand to \<open>move\<close>.
  What holds is: let \<open>OUTPUT_EVENT_LIMIT\<close> be at least 0 and every source answer
  \<open>getRange\<close> with one record for each counter asked for. Then every sequence of
  \<open>getNext\<close> and \<open>getPrevious\<close> calls, each made when the call before has settled and
  the first made on a contiguous window whose tail is at most \<open>OUTPUT_EVENT_LIMIT\<close>
  above its head, settles in a contiguous window whose tail is at most
  \<open>OUTPUT_EVENT_LIMIT\<close> above its head, which therefore holds at most
  \<open>OUTPUT_EVENT_LIMIT + 1\<close> records.
\<close>

theorem capped_paging_width:
  assumes "\<forall>(e, c) \<in> set steps. range_source e \<and> OUTPUT_EVENT_LIMIT e = limit \<and> capped c"
    and "0 \<le> limit"
    and "contiguous s"
    and "getTailCounter s - getHeadCounter s \<le> limit"
    and "run steps s = Some s'"
  shows "contiguous s' \<and>
         getTailCounter s' - getHeadCounter s' \<le> limit \<and>
         getRecordCount s' \<le> limit + 1"
proof -
  have "contiguous s' \<and> getTailCounter s' - getHeadCounter s' \<le> limit"
    using capped_run [OF assms] .
  then show ?thesis using count_le_width [of s'] by simp
qed

text \<open>
  With a limit of 3 and the window 2 to 4, a page of two forward and one record back
  settle in the window 3 to 6: its width is 3 and it holds 4 records.
\<close>

theorem capped_paging_width_witness:
  "run [(log_env 3 2 9, GetNext None), (log_env 3 2 9, GetPrevious (Some 1))] (window 2 4)
     \<noteq> None \<and>
   getRange (the (run [(log_env 3 2 9, GetNext None), (log_env 3 2 9, GetPrevious (Some 1))]
     (window 2 4))) = (3, 6) \<and>
   getRecordCount (the (run [(log_env 3 2 9, GetNext None),
     (log_env 3 2 9, GetPrevious (Some 1))] (window 2 4))) \<le> 3 + 1"
proof -
  let ?steps = "[(log_env 3 2 9, GetNext None), (log_env 3 2 9, GetPrevious (Some 1))]"
  have src: "\<forall>(e, c) \<in> set ?steps. range_source e \<and> OUTPUT_EVENT_LIMIT e = 3 \<and> capped c"
    by (simp add: range_source_log_env) (simp add: log_env_def)
  have K: "fmdom' (records (window 2 4)) = {2..4}" by code_simp
  have con: "contiguous (window 2 4)"
    unfolding contiguous_iff using K by blast
  have w: "getTailCounter (window 2 4) - getHeadCounter (window 2 4) \<le> 3"
    using head_tail_interval [OF K] by simp
  have "run ?steps (window 2 4) \<noteq> None" by code_simp
  then obtain s' where r: "run ?steps (window 2 4) = Some s'" by blast
  have rng: "getRange (the (run ?steps (window 2 4))) = (3, 6)" by code_simp
  from capped_paging_width [OF src _ con w r]
  have "getRecordCount s' \<le> 3 + 1" by simp
  then show ?thesis using r rng by simp
qed

text \<open>
  The claim as it stands fails, each time from the empty window. \<open>move\<close> does not look
  at the limit, and neither do the operations that only call it: with a limit of 2 and
  a page size of 1, \<open>getFirst\<close> on a log of two records settles with 2 records, and
  once the log has grown to five records \<open>move([1, 5])\<close> settles with 5, and so does
  \<open>moveTail(1)\<close>; \<open>getFirst\<close> on a log of five records settles with 5. With a limit of
  3, \<open>getLast\<close> with pages of two settles with 4 records, and after \<open>getLast\<close> with
  pages of one \<open>moveHead(-5)\<close> settles with 7. The two operations that look at the
  limit bound a width: with a limit of 3 and a page size of 2, \<open>getFirst\<close> on a log of
  three records settles with 3 records, and once the log has grown \<open>getNext(1)\<close> settles
  with 4. And they bound it in the range they read when they are called: with a limit
  of 5, \<open>getNext(2)\<close> and \<open>getPrevious(2)\<close> called one right after the other on the
  window 3 to 6 hand \<open>[3, 8]\<close> and \<open>[1, 6]\<close> to \<open>move\<close> and settle with the eight
  counters 1 to 8.
\<close>

theorem capacity_bound_counterexample:
  "range_source (log_env 2 1 2) \<and> range_source (log_env 2 1 5) \<and>
   OUTPUT_EVENT_LIMIT (log_env 2 1 2) = 2 \<and> OUTPUT_EVENT_LIMIT (log_env 2 1 5) = 2 \<and>
   map_option getRecordCount (run [(log_env 2 1 2, GetFirst)] init) = Some 2 \<and>
   map_option getRecordCount
     (run [(log_env 2 1 2, GetFirst), (log_env 2 1 5, Move (Fin 1, Fin 5))] init) = Some 5 \<and>
   map_option getRecordCount
     (run [(log_env 2 1 2, GetFirst), (log_env 2 1 5, MoveTail 1)] init) = Some 5 \<and>
   map_option getRecordCount (run [(log_env 2 1 5, GetFirst)] init) = Some 5 \<and>
   range_source (log_env 3 2 3) \<and> range_source (log_env 3 2 9) \<and>
   range_source (log_env 3 1 9) \<and>
   OUTPUT_EVENT_LIMIT (log_env 3 2 3) = 3 \<and> OUTPUT_EVENT_LIMIT (log_env 3 2 9) = 3 \<and>
   OUTPUT_EVENT_LIMIT (log_env 3 1 9) = 3 \<and>
   map_option getRecordCount (run [(log_env 3 2 9, GetLast)] init) = Some 4 \<and>
   map_option getRecordCount (run [(log_env 3 1 9, GetLast)] init) = Some 2 \<and>
   map_option getRecordCount
     (run [(log_env 3 1 9, GetLast), (log_env 3 1 9, MoveHead (- 5))] init) = Some 7 \<and>
   map_option getRecordCount (run [(log_env 3 2 3, GetFirst)] init) = Some 3 \<and>
   map_option getRecordCount
     (run [(log_env 3 2 3, GetFirst), (log_env 3 2 9, GetNext (Some 1))] init) = Some 4 \<and>
   range_source (log_env 5 2 20) \<and> OUTPUT_EVENT_LIMIT (log_env 5 2 20) = 5 \<and>
   getRange (window 3 6) = (3, 6) \<and>
   getNext_range (log_env 5 2 20) (window 3 6) (Some 2) = (3, 8) \<and>
   getPrevious_range (log_env 5 2 20) (window 3 6) (Some 2) = (1, 6) \<and>
   map_option getRange
     (chain_moves (log_env 5 2 20) (window 3 6)
        [range_target (getNext_range (log_env 5 2 20) (window 3 6) (Some 2)),
         range_target (getPrevious_range (log_env 5 2 20) (window 3 6) (Some 2))]
        (window 3 6)) = Some (1, 8) \<and>
   map_option getRecordCount
     (chain_moves (log_env 5 2 20) (window 3 6)
        [range_target (getNext_range (log_env 5 2 20) (window 3 6) (Some 2)),
         range_target (getPrevious_range (log_env 5 2 20) (window 3 6) (Some 2))]
        (window 3 6)) = Some 8"
proof -
  have "OUTPUT_EVENT_LIMIT (log_env 2 1 2) = 2 \<and> OUTPUT_EVENT_LIMIT (log_env 2 1 5) = 2 \<and>
        map_option getRecordCount (run [(log_env 2 1 2, GetFirst)] init) = Some 2 \<and>
        map_option getRecordCount
          (run [(log_env 2 1 2, GetFirst), (log_env 2 1 5, Move (Fin 1, Fin 5))] init) = Some 5 \<and>
        map_option getRecordCount
          (run [(log_env 2 1 2, GetFirst), (log_env 2 1 5, MoveTail 1)] init) = Some 5 \<and>
        map_option getRecordCount (run [(log_env 2 1 5, GetFirst)] init) = Some 5"
    by code_simp
  moreover
  have "OUTPUT_EVENT_LIMIT (log_env 3 2 3) = 3 \<and> OUTPUT_EVENT_LIMIT (log_env 3 2 9) = 3 \<and>
        OUTPUT_EVENT_LIMIT (log_env 3 1 9) = 3 \<and>
        map_option getRecordCount (run [(log_env 3 2 9, GetLast)] init) = Some 4 \<and>
        map_option getRecordCount (run [(log_env 3 1 9, GetLast)] init) = Some 2 \<and>
        map_option getRecordCount
          (run [(log_env 3 1 9, GetLast), (log_env 3 1 9, MoveHead (- 5))] init) = Some 7 \<and>
        map_option getRecordCount (run [(log_env 3 2 3, GetFirst)] init) = Some 3 \<and>
        map_option getRecordCount
          (run [(log_env 3 2 3, GetFirst), (log_env 3 2 9, GetNext (Some 1))] init) = Some 4"
    by code_simp
  moreover
  have "OUTPUT_EVENT_LIMIT (log_env 5 2 20) = 5 \<and>
        getRange (window 3 6) = (3, 6) \<and>
        getNext_range (log_env 5 2 20) (window 3 6) (Some 2) = (3, 8) \<and>
        getPrevious_range (log_env 5 2 20) (window 3 6) (Some 2) = (1, 6) \<and>
        map_option getRange
          (chain_moves (log_env 5 2 20) (window 3 6)
             [range_target (getNext_range (log_env 5 2 20) (window 3 6) (Some 2)),
              range_target (getPrevious_range (log_env 5 2 20) (window 3 6) (Some 2))]
             (window 3 6)) = Some (1, 8) \<and>
        map_option getRecordCount
          (chain_moves (log_env 5 2 20) (window 3 6)
             [range_target (getNext_range (log_env 5 2 20) (window 3 6) (Some 2)),
              range_target (getPrevious_range (log_env 5 2 20) (window 3 6) (Some 2))]
             (window 3 6)) = Some 8"
    by code_simp
  ultimately show ?thesis
    using range_source_log_env [of 2 1 2] range_source_log_env [of 2 1 5]
      range_source_log_env [of 3 2 3] range_source_log_env [of 3 2 9]
      range_source_log_env [of 3 1 9] range_source_log_env [of 5 2 20]
    by blast
qed


subsection \<open>Moving the tail\<close>

text \<open>
  C4. The specification says that \<open>moveTail(delta)\<close> honours a negative \<open>delta\<close> in full
  (the target's high bound is \<open>tail + delta\<close>) and caps a positive one by the room
  \<open>maxCounter() - tail\<close>. The source takes the larger of the room and \<open>delta\<close>, where
  \<open>getNext\<close> takes the smaller: on the window 1 to 10 of a log of 100 records,
  \<open>moveTail(-3)\<close> hands \<open>[1, 100]\<close> to \<open>move\<close> (not \<open>[1, 7]\<close>), and so does \<open>moveTail(5)\<close>
  (not \<open>[1, 15]\<close>). The low bound is the head.
\<close>

theorem moveTail_takes_the_larger:
  "getRange (window 1 10) = (1, 10) \<and>
   getMaxCounter (log_env 50 10 100) (window 1 10) = 100 \<and>
   moveTail_range (log_env 50 10 100) (window 1 10) (- 3) = (1, 100) \<and>
   moveTail_range (log_env 50 10 100) (window 1 10) 5 = (1, 100)"
  by code_simp

text \<open>
  In general the target's high bound is never below \<open>getMaxCounter()\<close>, and
  \<open>moveTail\<close> hands that target to \<open>move\<close>.
\<close>

lemma moveTail_range_eq:
  "moveTail_range e s d = (getHeadCounter s, max (getMaxCounter e s) (getTailCounter s + d))"
  by (auto simp: moveTail_range_def getRange_def Let_def max_def)

lemma moveTail_move:
  "moveTail e s d =
     move e s (Fin (getHeadCounter s), Fin (max (getMaxCounter e s) (getTailCounter s + d)))"
  by (simp add: moveTail_def move_to_def moveTail_range_eq)


subsection \<open>Targets that change nothing\<close>

text \<open>
  C5. For a window that is not empty and whose head is at least 1, \<open>move(getRange())\<close>
  runs no edge operation and calls neither storage nor api: it resolves with the scroll
  height and leaves the state, the log of calls included, as it was. (That the tail is
  at most \<open>getMaxCounter()\<close> holds in every state.)
\<close>

theorem move_to_current_range:
  assumes "fmdom' (records s) \<noteq> {}" and "1 \<le> getHeadCounter s"
  shows "move e s (Fin (fst (getRange s)), Fin (snd (getRange s))) =
           Some (s, getScrollHeight e (calls s))"
proof -
  define h t where "h = getHeadCounter s" and "t = getTailCounter s"
  have ht: "h \<le> t" using nonempty_head_le_tail [OF assms(1)] by (simp add: h_def t_def)
  have tM: "t \<le> getMaxCounter e s"
    by (cases "api_getMaxCounter e") (simp_all add: getMaxCounter_def Let_def t_def)
  have bnd: "getBoundedRange (Fin h, Fin t) (Fin 1, Fin (getMaxCounter e s)) = (Fin h, Fin t)"
    using assms(2) tM by (simp add: getBoundedRange_def h_def max_def min_def)
  have ov: "getOverlapArray (h, t) (h, t) = Some (0, 0)"
    using ht by (simp add: getOverlapArray_def checkRangeOverlap_def)
  have "move_steps e s (h, t) (0, 0) = (s, getScrollHeight e (calls s))"
    by (simp add: move_steps_def)
  then show ?thesis
    using bnd ov ht by (simp add: move_def getRange_def Let_def h_def t_def)
qed

theorem move_to_current_range_witness:
  "fmdom' (records (window 3 7)) \<noteq> {} \<and> 1 \<le> getHeadCounter (window 3 7) \<and>
   move (log_env 50 10 20) (window 3 7) (Fin 3, Fin 7) = Some (window 3 7, 0)"
proof -
  have h: "fmdom' (records (window 3 7)) \<noteq> {}" "1 \<le> getHeadCounter (window 3 7)"
    by code_simp+
  have r: "getRange (window 3 7) = (3, 7)"
    "getScrollHeight (log_env 50 10 20) (calls (window 3 7)) = 0"
    by code_simp+
  show ?thesis
    using h move_to_current_range [OF h, of "log_env 50 10 20"] by (simp add: r)
qed

text \<open>
  C6. When the target, clamped to \<open>[1, getMaxCounter()]\<close>, has its low bound above its
  high bound, or a bound that is not finite, \<open>move\<close> runs no edge operation, leaves the
  state as it was and resolves with the scroll height read when it was called.
\<close>

theorem move_invalid_target:
  assumes "getBoundedRange target (Fin 1, Fin (getMaxCounter e s)) = (newHead, newTail)"
    and "js_gt newHead newTail \<or> \<not> Number_isFinite newHead \<or> \<not> Number_isFinite newTail"
  shows "move e s target = Some (s, getScrollHeight e (calls s))"
  using assms by (auto simp: move_def Let_def)

theorem move_invalid_target_witness:
  "move (log_env 50 10 20) (window 3 7) (Fin 9, Fin 4) = Some (window 3 7, 0) \<and>
   move (log_env 50 10 20) (window 3 7) (Fin 30, Fin 40) = Some (window 3 7, 0) \<and>
   move (log_env 50 10 20) (window 3 7) (NaN, Fin 4) = Some (window 3 7, 0) \<and>
   move (log_env 50 10 20) (window 3 7) (PosInf, PosInf) = Some (window 3 7, 0)"
proof -
  have M: "getMaxCounter (log_env 50 10 20) (window 3 7) = 20"
    and H: "getScrollHeight (log_env 50 10 20) (calls (window 3 7)) = 0"
    by code_simp+
  have "move (log_env 50 10 20) (window 3 7) (Fin 9, Fin 4) = Some (window 3 7, 0)"
    using move_invalid_target [of "(Fin 9, Fin 4)" "log_env 50 10 20" "window 3 7" "Fin 9" "Fin 4"]
    by (simp add: M H getBoundedRange_def)
  moreover have "move (log_env 50 10 20) (window 3 7) (Fin 30, Fin 40) = Some (window 3 7, 0)"
    using move_invalid_target [of "(Fin 30, Fin 40)" "log_env 50 10 20" "window 3 7" "Fin 30" "Fin 20"]
    by (simp add: M H getBoundedRange_def)
  moreover have "move (log_env 50 10 20) (window 3 7) (NaN, Fin 4) = Some (window 3 7, 0)"
    using move_invalid_target [of "(NaN, Fin 4)" "log_env 50 10 20" "window 3 7" NaN "Fin 4"]
    by (simp add: M H getBoundedRange_def)
  moreover have "move (log_env 50 10 20) (window 3 7) (PosInf, PosInf) = Some (window 3 7, 0)"
    using move_invalid_target [of "(PosInf, PosInf)" "log_env 50 10 20" "window 3 7" PosInf "Fin 20"]
    by (simp add: M H getBoundedRange_def)
  ultimately show ?thesis by simp
qed


subsection \<open>Paging forward\<close>

text \<open>
  C7. \<open>getNext(step)\<close> moves the tail by the smaller of \<open>step\<close> and the room
  \<open>getMaxCounter() - tail\<close>, and raises the head to \<open>newTail - OUTPUT_EVENT_LIMIT\<close> when
  the new tail is more than \<open>OUTPUT_EVENT_LIMIT\<close> above the head, so that the target it
  hands to \<open>move\<close> is never wider than \<open>OUTPUT_EVENT_LIMIT\<close>. With a limit of 50, the
  range \<open>[1, 40]\<close> and a log of 100 records, \<open>getNext(20)\<close> calls \<open>move([10, 60])\<close>.
\<close>

theorem getNext_capping:
  "(let head = getHeadCounter s;
        tail = getTailCounter s;
        tailDelta = min (getMaxCounter e s - tail) step;
        newTail = tail + tailDelta;
        newHead = (if newTail - head > OUTPUT_EVENT_LIMIT e
                   then newTail - OUTPUT_EVENT_LIMIT e else head)
    in getNext e s (Some step) = move e s (Fin newHead, Fin newTail) \<and>
       tailDelta \<le> getMaxCounter e s - tail \<and>
       newTail - newHead \<le> OUTPUT_EVENT_LIMIT e) \<and>
   (OUTPUT_EVENT_LIMIT e = 50 \<and> getRange s = (1, 40) \<and> getMaxCounter e s = 100 \<longrightarrow>
      getNext e s (Some 20) = move e s (Fin 10, Fin 60))"
  by (auto simp: getNext_def move_to_def getNext_range_def getRange_def Let_def)

theorem getNext_capping_witness:
  "OUTPUT_EVENT_LIMIT (log_env 50 20 100) = 50 \<and>
   getRange (window 1 40) = (1, 40) \<and>
   getMaxCounter (log_env 50 20 100) (window 1 40) = 100 \<and>
   getNext (log_env 50 20 100) (window 1 40) (Some 20) =
     move (log_env 50 20 100) (window 1 40) (Fin 10, Fin 60)"
proof -
  have h: "OUTPUT_EVENT_LIMIT (log_env 50 20 100) = 50 \<and>
           getRange (window 1 40) = (1, 40) \<and>
           getMaxCounter (log_env 50 20 100) (window 1 40) = 100"
    by code_simp
  then show ?thesis
    using getNext_capping [of "window 1 40" "log_env 50 20 100" 20] by blast
qed


subsection \<open>The log bound\<close>

text \<open>
  C8. \<open>getMaxCounter()\<close> is the larger of \<open>api.getMaxCounter()\<close> and \<open>getTailCounter()\<close>
  when the api value is finite, and \<open>getTailCounter()\<close> otherwise; so it is never below
  \<open>getTailCounter()\<close>.
\<close>

theorem getMaxCounter_bound:
  "getMaxCounter e s =
     (if Number_isFinite (api_getMaxCounter e)
      then (case api_getMaxCounter e of Fin c \<Rightarrow> max c (getTailCounter s) | _ \<Rightarrow> 0)
      else getTailCounter s) \<and>
   getMaxCounter e s \<ge> getTailCounter s"
  by (cases "api_getMaxCounter e") (simp_all add: getMaxCounter_def Let_def max.commute)

theorem getMaxCounter_bound_witness:
  "getMaxCounter (log_env 50 10 3) (window 1 5) = 5 \<and>
   getMaxCounter (log_env 50 10 8) (window 1 5) = 8 \<and>
   getMaxCounter ((log_env 50 10 8)\<lparr> api_getMaxCounter := NaN \<rparr>) (window 1 5) = 5"
proof -
  have t: "getTailCounter (window 1 5) = 5" by code_simp
  show ?thesis
    using getMaxCounter_bound [of "log_env 50 10 3" "window 1 5"]
      getMaxCounter_bound [of "log_env 50 10 8" "window 1 5"]
      getMaxCounter_bound [of "(log_env 50 10 8)\<lparr> api_getMaxCounter := NaN \<rparr>" "window 1 5"]
    by (simp add: t log_env_def)
qed


subsection \<open>The two maps\<close>

text \<open>
  C9. In every state that a sequence of \<open>pushFront\<close>, \<open>pushBack\<close>, \<open>popFront\<close> and
  \<open>popBack\<close> reaches from the initial state, \<open>records\<close> and \<open>uuids\<close> have the same
  counters as keys: each operation adds to both or deletes from both.
\<close>

theorem paired_maps:
  "fmdom' (records (fold edge ops init)) = fmdom' (uuids (fold edge ops init))"
proof -
  have step: "fmdom' (records (edge c s)) = fmdom' (uuids (edge c s))"
    if "fmdom' (records s) = fmdom' (uuids s)" for c s
  proof (cases c)
    case (PushFront evs)
    then show ?thesis using that by (simp add: pushFront_def Let_def store_events_maps)
  next
    case (PushBack evs)
    then show ?thesis using that
      by (simp add: pushBack_def getRange_def Let_def store_events_maps)
  next
    case (PopFront n)
    then show ?thesis using that by (simp add: popFront_def Let_def delete_down_maps)
  next
    case (PopBack n)
    then show ?thesis using that by (simp add: popBack_def Let_def delete_up_maps)
  qed
  have "fmdom' (records (fold edge ops s)) = fmdom' (uuids (fold edge ops s))"
    if "fmdom' (records s) = fmdom' (uuids s)" for s
    using that by (induction ops arbitrary: s) (simp_all add: step)
  then show ?thesis by (simp add: init_def)
qed

theorem paired_maps_witness:
  "fmdom' (records (fold edge [PushFront (log_range (1, 6)), PopBack 1,
       PushBack (log_range (1, 2)), PopFront 2] init)) = {1, 2, 3} \<and>
   fmdom' (uuids (fold edge [PushFront (log_range (1, 6)), PopBack 1,
       PushBack (log_range (1, 2)), PopFront 2] init)) = {1, 2, 3}"
proof -
  have "fmdom' (records (fold edge [PushFront (log_range (1, 6)), PopBack 1,
       PushBack (log_range (1, 2)), PopFront 2] init)) = {1, 2, 3}"
    by code_simp
  then show ?thesis
    using paired_maps [of "[PushFront (log_range (1, 6)), PopBack 1,
       PushBack (log_range (1, 2)), PopFront 2]"] by simp
qed


subsection \<open>Symmetry of the overlap test\<close>

text \<open>
  C10. For all integer ranges \<open>a\<close> and \<open>b\<close>, \<open>checkRangeOverlap(a, b)\<close> equals
  \<open>checkRangeOverlap(b, a)\<close>, and when they overlap \<open>getOverlapArray(b, a)\<close> is the
  elementwise negation of \<open>getOverlapArray(a, b)\<close>, that is
  \<open>[b[0] - a[0], a[1] - b[1]]\<close>.
\<close>

theorem overlap_antisymmetric:
  "checkRangeOverlap a b = checkRangeOverlap b a \<and>
   getOverlapArray b a = map_option (\<lambda>(d0, d1). (- d0, - d1)) (getOverlapArray a b) \<and>
   (checkRangeOverlap a b \<longrightarrow>
      getOverlapArray a b = Some (fst a - fst b, snd b - snd a) \<and>
      getOverlapArray b a = Some (fst b - fst a, snd a - snd b))"
  by (auto simp: checkRangeOverlap_def getOverlapArray_def Let_def max_def min_def)

theorem overlap_antisymmetric_witness:
  "checkRangeOverlap (4, 8) (2, 4) \<and>
   getOverlapArray (4, 8) (2, 4) = Some (2, - 4) \<and>
   getOverlapArray (2, 4) (4, 8) = Some (- 2, 4)"
  using overlap_antisymmetric [of "(4, 8)" "(2, 4)"]
  by (simp add: checkRangeOverlap_def)

end
